theory Spec2Isabelle
  imports Main "HOL-Library.Word"
begin

section \<open>The circular buffer of circularBuffer.c\<close>

text \<open>
  A shallow embedding of \<^verbatim>\<open>Inc/circularBuffer.h\<close> and \<^verbatim>\<open>Src/circularBuffer.c\<close>.
  The C integers are machine words: \<^verbatim>\<open>uint8_t\<close> is an 8-bit word, \<^verbatim>\<open>uint32_t\<close> a
  32-bit word, so that \<open>+\<close> and \<open>-\<close> wrap around as they do in C and \<open>mod\<close> and the
  comparisons are the unsigned ones.
\<close>

subsection \<open>Data model\<close>

type_synonym uint8_t = "8 word"
type_synonym uint32_t = "32 word"

text \<open>\<^verbatim>\<open>#define C_BUFFER_SIZE (50)\<close>\<close>

definition C_BUFFER_SIZE :: uint32_t where
  "C_BUFFER_SIZE = 50"

text \<open>
  \<^verbatim>\<open>typedef struct { uint8_t data[C_BUFFER_SIZE]; uint32_t front; uint32_t rear; } cBuffer_t;\<close>
  The array is a list; the C type gives it exactly \<open>C_BUFFER_SIZE\<close> elements.
\<close>

record cBuffer_t =
  data :: "uint8_t list"
  front :: uint32_t
  rear :: uint32_t

datatype cBufferStatus_t =
    CBUFFER_SUCCESS
  | CBUFFER_EMPTY
  | CBUFFER_FULL
  | CBUFFER_OVERFLOW
  | CBUFFER_FAIL
  | CBUFFER_INVALID_STRING

text \<open>
  A valid buffer, the buffer state of the data model: the array has its \<open>C_BUFFER_SIZE\<close>
  elements and both indices lie in \<open>[0, C_BUFFER_SIZE)\<close>. These are exactly the buffers a
  program can get from \<open>cBuffer_Init\<close> by calls of the library (lemma
  \<open>reachable_iff_valid\<close> below); a structure that was never initialised, or whose fields
  were written directly, need not be one.
\<close>

definition cBuffer_valid :: "cBuffer_t \<Rightarrow> bool" where
  "cBuffer_valid b \<longleftrightarrow>
     length (data b) = unat C_BUFFER_SIZE \<and> front b < C_BUFFER_SIZE \<and> rear b < C_BUFFER_SIZE"

subsection \<open>Operations\<close>

text \<open>
  Every function that takes a \<^verbatim>\<open>cBuffer_t *\<close> returns the buffer it leaves behind; an
  out-parameter (\<^verbatim>\<open>uint8_t *readChar\<close>, \<^verbatim>\<open>uint8_t *peekResult\<close>) is passed in with the
  value the caller's variable holds before the call and returned with the value it
  holds after it. \<open>cBuffer_peek\<close> takes a pointer to a constant structure and assigns
  nothing through it, so the buffer it returns is the one it was given; the two space
  functions only compute a number.
\<close>

text \<open>\<^verbatim>\<open>memset(cBuffer->data, 0, C_BUFFER_SIZE); cBuffer->front = 0; cBuffer->rear = 0;\<close>\<close>

definition cBuffer_Init :: "cBuffer_t \<Rightarrow> cBuffer_t" where
  "cBuffer_Init b = b\<lparr>data := replicate (unat C_BUFFER_SIZE) 0, front := 0, rear := 0\<rparr>"

definition cBuffer_Clean :: "cBuffer_t \<Rightarrow> cBuffer_t" where
  "cBuffer_Clean b = cBuffer_Init b"

definition cBuffer_add_char :: "cBuffer_t \<Rightarrow> uint8_t \<Rightarrow> cBufferStatus_t \<times> cBuffer_t" where
  "cBuffer_add_char b c =
     (if \<not> ((rear b + 1) mod C_BUFFER_SIZE = front b) then
        let b1 = b\<lparr>rear := (rear b + 1) mod C_BUFFER_SIZE\<rparr>;
            b2 = b1\<lparr>data := (data b1)[unat (rear b1) := c]\<rparr>
        in (CBUFFER_SUCCESS, b2)
      else (CBUFFER_FULL, b))"

definition cBuffer_read_char ::
  "cBuffer_t \<Rightarrow> uint8_t \<Rightarrow> cBufferStatus_t \<times> cBuffer_t \<times> uint8_t" where
  "cBuffer_read_char b readChar =
     (if \<not> (front b = rear b) then
        let b1 = b\<lparr>front := (front b + 1) mod C_BUFFER_SIZE\<rparr>
        in (CBUFFER_SUCCESS, b1, data b1 ! unat (front b1))
      else (CBUFFER_EMPTY, b, readChar))"

definition cBuffer_get_availableSpace :: "cBuffer_t \<Rightarrow> uint32_t" where
  "cBuffer_get_availableSpace b =
     (if front b > rear b then front b - rear b - 1
      else C_BUFFER_SIZE - (rear b - front b + 1))"

definition cBuffer_get_usedSpace :: "cBuffer_t \<Rightarrow> uint32_t" where
  "cBuffer_get_usedSpace b =
     (if rear b \<ge> front b then rear b - front b
      else C_BUFFER_SIZE - (front b - rear b))"

text \<open>
  The loop of \<open>cBuffer_add_string\<close>,
  \<^verbatim>\<open>for (uint32_t i = 0; i < str_length; i++) cBuffer_add_char(cBuffer, stringData[i]);\<close>
  with the status of each call dropped as the source drops it. The counter is a natural
  number: it stays below \<open>str_length\<close>, so \<^verbatim>\<open>i++\<close> never wraps.
\<close>

function add_string_loop :: "cBuffer_t \<Rightarrow> uint8_t list \<Rightarrow> nat \<Rightarrow> nat \<Rightarrow> cBuffer_t" where
  "add_string_loop b stringData i str_length =
     (if i < str_length
      then add_string_loop (snd (cBuffer_add_char b (stringData ! i))) stringData (Suc i) str_length
      else b)"
  by pat_completeness auto
termination
  by (relation "measure (\<lambda>(b, stringData, i, str_length). str_length - i)") auto

text \<open>
  A C string is the list of its bytes before the terminator (none of them 0, which nothing
  below depends on), so \<^verbatim>\<open>strlen\<close> is \<open>length\<close>; the assignment to
  \<^verbatim>\<open>uint32_t str_length\<close> keeps the low 32 bits of it, and \<open>str_length + 1\<close> is computed in
  32 bits.
\<close>

definition cBuffer_add_string :: "cBuffer_t \<Rightarrow> uint8_t list \<Rightarrow> cBufferStatus_t \<times> cBuffer_t" where
  "cBuffer_add_string b stringData =
     (let str_length = (of_nat (length stringData) :: uint32_t);
          buffer_spaceAvailable = cBuffer_get_availableSpace b
      in if buffer_spaceAvailable < str_length + 1 then (CBUFFER_OVERFLOW, b)
         else
           let b1 = add_string_loop b stringData 0 (unat str_length);
               b2 = snd (cBuffer_add_char b1 0)
           in (CBUFFER_SUCCESS, b2))"

definition cBuffer_peek ::
  "cBuffer_t \<Rightarrow> uint32_t \<Rightarrow> uint8_t \<Rightarrow> cBufferStatus_t \<times> cBuffer_t \<times> uint8_t" where
  "cBuffer_peek b peekIndex peekResult =
     (let data_inSourceBuffer = cBuffer_get_usedSpace b
      in if peekIndex \<ge> data_inSourceBuffer then (CBUFFER_FAIL, b, peekResult)
         else
           let actualIndex = (front b + peekIndex + 1) mod C_BUFFER_SIZE
           in (CBUFFER_SUCCESS, b, data b ! unat actualIndex))"

text \<open>
  \<^verbatim>\<open>DestinationBuffer\<close> is the caller's memory behind the pointer, cell \<open>i\<close> being
  \<^verbatim>\<open>DestinationBuffer[i]\<close>, apart from the structure itself. The source checks no bound on
  it, and the model has none.
  The loop of \<open>cBuffer_read_string\<close> is
  \<^verbatim>\<open>for (uint32_t i = 0; i < str_length; i++) cBuffer_read_char(cBuffer, &DestinationBuffer[i]);\<close>
\<close>

function read_string_loop ::
  "cBuffer_t \<Rightarrow> (nat \<Rightarrow> uint8_t) \<Rightarrow> nat \<Rightarrow> nat \<Rightarrow> cBuffer_t \<times> (nat \<Rightarrow> uint8_t)" where
  "read_string_loop b DestinationBuffer i str_length =
     (if i < str_length
      then
        (case cBuffer_read_char b (DestinationBuffer i) of
           (st, b1, c) \<Rightarrow> read_string_loop b1 (DestinationBuffer(i := c)) (Suc i) str_length)
      else (b, DestinationBuffer))"
  by pat_completeness auto
termination
  by (relation "measure (\<lambda>(b, DestinationBuffer, i, str_length). str_length - i)") auto

definition cBuffer_read_string ::
  "cBuffer_t \<Rightarrow> uint32_t \<Rightarrow> (nat \<Rightarrow> uint8_t) \<Rightarrow> cBufferStatus_t \<times> cBuffer_t \<times> (nat \<Rightarrow> uint8_t)" where
  "cBuffer_read_string b str_length DestinationBuffer =
     (let data_inSourceBuffer = cBuffer_get_usedSpace b
      in if data_inSourceBuffer < str_length then (CBUFFER_FAIL, b, DestinationBuffer)
         else
           (case read_string_loop b DestinationBuffer 0 (unat str_length) of
              (b1, dest1) \<Rightarrow> (CBUFFER_SUCCESS, b1, dest1(unat str_length := 0))))"

subsection \<open>Vocabulary of the properties\<close>

text \<open>
  The bytes stored in the buffer, oldest first: \<open>cBuffer_get_usedSpace\<close> of them, the
  \<open>i\<close>-th in slot \<open>(front + 1 + i) mod C_BUFFER_SIZE\<close>.
\<close>

definition cBuffer_contents :: "cBuffer_t \<Rightarrow> uint8_t list" where
  "cBuffer_contents b =
     map (\<lambda>i. data b ! ((unat (front b) + 1 + i) mod unat C_BUFFER_SIZE))
       [0..<unat (cBuffer_get_usedSpace b)]"

text \<open>
  A caller that pushes the bytes of a list one after the other with \<open>cBuffer_add_char\<close>
  and keeps every status.
\<close>

fun add_char_seq :: "cBuffer_t \<Rightarrow> uint8_t list \<Rightarrow> cBufferStatus_t list \<times> cBuffer_t" where
  "add_char_seq b [] = ([], b)"
| "add_char_seq b (c # cs) =
     (case cBuffer_add_char b c of
        (st, b1) \<Rightarrow> (case add_char_seq b1 cs of (sts, b2) \<Rightarrow> (st # sts, b2)))"

text \<open>
  A caller that calls \<open>cBuffer_read_char\<close> \<open>n\<close> times on the same variable \<open>readChar\<close>
  and keeps, for every call, the status and the value of the variable after it.
\<close>

fun read_char_seq ::
  "cBuffer_t \<Rightarrow> nat \<Rightarrow> uint8_t \<Rightarrow> (cBufferStatus_t \<times> uint8_t) list \<times> cBuffer_t" where
  "read_char_seq b 0 readChar = ([], b)"
| "read_char_seq b (Suc n) readChar =
     (case cBuffer_read_char b readChar of
        (st, b1, c) \<Rightarrow>
          (case read_char_seq b1 n c of (rs, b2) \<Rightarrow> ((st, c) # rs, b2)))"

text \<open>The buffers a program gets from \<open>cBuffer_Init\<close> by calls of the library.\<close>

inductive cBuffer_reachable :: "cBuffer_t \<Rightarrow> bool" where
  reach_Init: "cBuffer_reachable (cBuffer_Init b)"
| reach_Clean: "cBuffer_reachable b \<Longrightarrow> cBuffer_reachable (cBuffer_Clean b)"
| reach_add_char: "cBuffer_reachable b \<Longrightarrow> cBuffer_reachable (snd (cBuffer_add_char b c))"
| reach_read_char:
    "cBuffer_reachable b \<Longrightarrow> cBuffer_reachable (fst (snd (cBuffer_read_char b readChar)))"
| reach_add_string:
    "cBuffer_reachable b \<Longrightarrow> cBuffer_reachable (snd (cBuffer_add_string b stringData))"
| reach_read_string:
    "cBuffer_reachable b \<Longrightarrow>
     cBuffer_reachable (fst (snd (cBuffer_read_string b str_length DestinationBuffer)))"
| reach_peek:
    "cBuffer_reachable b \<Longrightarrow> cBuffer_reachable (fst (snd (cBuffer_peek b peekIndex peekResult)))"

text \<open>
  Examples for the concrete instances below: what a \<^verbatim>\<open>cBuffer_t\<close> variable may hold
  before \<open>cBuffer_Init\<close>, a buffer holding the two bytes \<open>A\<close> and \<open>B\<close>, what the
  caller's destination memory may hold before a read, and the bytes of \<^verbatim>\<open>"hello"\<close>.
\<close>

definition stale_buffer :: cBuffer_t where
  "stale_buffer = \<lparr>data = replicate 50 255, front = 7, rear = 3\<rparr>"

definition buffer_AB :: cBuffer_t where
  "buffer_AB =
     snd (cBuffer_add_char (snd (cBuffer_add_char (cBuffer_Init stale_buffer) 65)) 66)"

definition stale_dest :: "nat \<Rightarrow> uint8_t" where
  "stale_dest i = 170"

definition hello :: "uint8_t list" where
  "hello = [104, 101, 108, 108, 111]"

declare add_string_loop.simps [simp del] read_string_loop.simps [simp del]

section \<open>Lemmas\<close>

subsection \<open>Index arithmetic modulo 50\<close>

lemma mod50: "(n::nat) < 100 \<Longrightarrow> n mod 50 = (if n < 50 then n else n - 50)"
  by (simp add: le_mod_geq)

lemma used50:
  "f < 50 \<Longrightarrow> r < 50 \<Longrightarrow> (r + 50 - f) mod 50 = (if f \<le> r then r - f else r + 50 - (f::nat))"
  by (simp add: mod50)

lemma next50: "r < 50 \<Longrightarrow> Suc r mod 50 = (if r = 49 then 0 else Suc r)"
  by (simp add: mod50)

lemma used50_after_add:
  assumes "f < 50" "r < 50" "(r + 50 - f) mod 50 < 49"
  shows "(Suc r mod 50 + 50 - f) mod 50 = Suc ((r + 50 - f) mod (50::nat))"
proof -
  let ?r' = "Suc r mod 50"
  have 1: "(?r' + 50 - f) mod 50 = (if f \<le> ?r' then ?r' - f else ?r' + 50 - f)"
    by (rule used50) (use assms in simp_all)
  have 2: "(r + 50 - f) mod 50 = (if f \<le> r then r - f else r + 50 - f)"
    by (rule used50) fact+
  have 3: "?r' = (if r = 49 then 0 else Suc r)"
    by (rule next50) fact
  show ?thesis
    using assms unfolding 1 by (auto simp: 2 3 split: if_splits)
qed

lemma slot50_distinct:
  assumes "f < 50" "r < 50" "i < (r + 50 - f) mod 50"
  shows "Suc (f + i) mod 50 \<noteq> Suc r mod (50::nat)"
proof -
  have 2: "(r + 50 - f) mod 50 = (if f \<le> r then r - f else r + 50 - f)"
    by (rule used50) fact+
  have 3: "Suc r mod 50 = (if r = 49 then 0 else Suc r)"
    by (rule next50) fact
  have "Suc (f + i) < 100"
    using assms unfolding 2 by (auto split: if_splits)
  then have 4: "Suc (f + i) mod 50 = (if Suc (f + i) < 50 then Suc (f + i) else Suc (f + i) - 50)"
    by (rule mod50)
  show ?thesis
    using assms unfolding 2 3 4 by (auto split: if_splits)
qed

lemma slot50_rear:
  "f < 50 \<Longrightarrow> r < 50 \<Longrightarrow> Suc (f + (r + 50 - f) mod 50) mod 50 = Suc r mod (50::nat)"
  by (cases "r = 49"; cases "f \<le> r") (auto simp add: used50 next50 mod50)

lemma full50:
  "f < 50 \<Longrightarrow> r < 50 \<Longrightarrow> (Suc r mod 50 = f) = ((r + 50 - f) mod 50 = (49::nat))"
  by (cases "r = 49"; cases "f \<le> r") (auto simp add: used50 next50 mod50)

lemma empty50: "f < 50 \<Longrightarrow> r < 50 \<Longrightarrow> ((r + 50 - f) mod 50 = 0) = (f = (r::nat))"
  by (auto simp add: used50 split: if_splits)

lemma used50_after_read:
  "f < 50 \<Longrightarrow> r < 50 \<Longrightarrow> 0 < (r + 50 - f) mod 50 \<Longrightarrow>
   (r + 50 - Suc f mod 50) mod 50 = (r + 50 - f) mod 50 - (1::nat)"
  by (cases "f = 49"; cases "f \<le> r") (auto simp add: used50 next50 mod50)

lemma slot50_shift: "Suc (Suc f mod 50 + i) mod 50 = Suc (f + Suc i) mod (50::nat)"
  by (metis add_Suc add_Suc_right mod_Suc_eq mod_add_left_eq)

subsection \<open>From words to numbers\<close>

lemma unat_C_BUFFER_SIZE: "unat C_BUFFER_SIZE = 50"
  by (simp add: C_BUFFER_SIZE_def)

lemma unat_lt_C: "x < C_BUFFER_SIZE \<longleftrightarrow> unat x < 50"
  by (simp add: C_BUFFER_SIZE_def word_less_nat_alt)

lemma used_unat: "front b < C_BUFFER_SIZE \<Longrightarrow> rear b < C_BUFFER_SIZE \<Longrightarrow>
  unat (cBuffer_get_usedSpace b) = (unat (rear b) + 50 - unat (front b)) mod 50"
  unfolding cBuffer_get_usedSpace_def C_BUFFER_SIZE_def
  apply (simp add: word_le_nat_alt word_less_nat_alt unat_sub_if')
  apply (auto simp: mod50)
  done

lemma avail_unat: "front b < C_BUFFER_SIZE \<Longrightarrow> rear b < C_BUFFER_SIZE \<Longrightarrow>
  unat (cBuffer_get_availableSpace b) = 49 - unat (cBuffer_get_usedSpace b)"
  unfolding cBuffer_get_usedSpace_def cBuffer_get_availableSpace_def C_BUFFER_SIZE_def
  apply (simp add: word_le_nat_alt word_less_nat_alt unat_sub_if' unat_word_ariths)
  apply (auto simp: mod_if)
  done

lemma next_unat: "x < C_BUFFER_SIZE \<Longrightarrow> unat ((x + 1) mod C_BUFFER_SIZE) = Suc (unat x) mod 50"
  unfolding C_BUFFER_SIZE_def
  by (simp add: unat_mod word_less_nat_alt unat_word_ariths)

lemma next_lt: "(x + 1) mod C_BUFFER_SIZE < C_BUFFER_SIZE"
  unfolding C_BUFFER_SIZE_def
  by (simp add: word_mod_less_divisor)

lemma used_le: "cBuffer_valid b \<Longrightarrow> unat (cBuffer_get_usedSpace b) \<le> 49"
  by (simp add: cBuffer_valid_def used_unat)

lemma cBuffer_full_iff: "cBuffer_valid b \<Longrightarrow>
  ((rear b + 1) mod C_BUFFER_SIZE = front b) \<longleftrightarrow> unat (cBuffer_get_usedSpace b) = 49"
  unfolding cBuffer_valid_def
  by (simp add: used_unat word_unat_eq_iff next_unat unat_lt_C full50)

lemma cBuffer_empty_iff: "cBuffer_valid b \<Longrightarrow>
  (front b = rear b) \<longleftrightarrow> unat (cBuffer_get_usedSpace b) = 0"
  unfolding cBuffer_valid_def
  by (simp add: used_unat word_unat_eq_iff unat_lt_C empty50)

lemma add_char_success:
  fixes b :: cBuffer_t and c :: uint8_t
  assumes v: "cBuffer_valid b" and u: "unat (cBuffer_get_usedSpace b) < 49"
  defines "b' \<equiv> b\<lparr>rear := (rear b + 1) mod C_BUFFER_SIZE,
                    data := (data b)[unat ((rear b + 1) mod C_BUFFER_SIZE) := c]\<rparr>"
  shows "cBuffer_add_char b c = (CBUFFER_SUCCESS, b')"
    and "cBuffer_valid b'"
    and "unat (cBuffer_get_usedSpace b') = Suc (unat (cBuffer_get_usedSpace b))"
    and "cBuffer_contents b' = cBuffer_contents b @ [c]"
proof -
  from v u have nf: "(rear b + 1) mod C_BUFFER_SIZE \<noteq> front b"
    by (simp add: cBuffer_full_iff)
  show "cBuffer_add_char b c = (CBUFFER_SUCCESS, b')"
    using nf by (simp add: cBuffer_add_char_def b'_def Let_def)
  show v': "cBuffer_valid b'"
    using v by (simp add: cBuffer_valid_def b'_def next_lt)
  have f: "unat (front b) < 50" and r: "unat (rear b) < 50" and len: "length (data b) = 50"
    using v by (simp_all add: cBuffer_valid_def unat_lt_C unat_C_BUFFER_SIZE)
  have ub: "unat (cBuffer_get_usedSpace b) = (unat (rear b) + 50 - unat (front b)) mod 50"
    using v by (simp add: cBuffer_valid_def used_unat)
  have r': "unat (rear b') = Suc (unat (rear b)) mod 50"
    using v by (simp add: b'_def cBuffer_valid_def next_unat)
  have f': "front b' = front b"
    by (simp add: b'_def)
  have ub': "unat (cBuffer_get_usedSpace b') = (unat (rear b') + 50 - unat (front b')) mod 50"
    using v' by (simp add: cBuffer_valid_def used_unat)
  show u': "unat (cBuffer_get_usedSpace b') = Suc (unat (cBuffer_get_usedSpace b))"
    using u unfolding ub' ub r' f' by (rule used50_after_add[OF f r])
  have idx: "Suc (unat (rear b)) mod 50 \<noteq> Suc (unat (front b) + i) mod 50"
    if "i < unat (cBuffer_get_usedSpace b)" for i
    using that unfolding ub by (rule slot50_distinct[OF f r, THEN not_sym])
  have last: "Suc (unat (front b) + unat (cBuffer_get_usedSpace b)) mod 50 = Suc (unat (rear b)) mod 50"
    unfolding ub by (rule slot50_rear[OF f r])
  have d': "data b' = (data b)[Suc (unat (rear b)) mod 50 := c]"
    using r' by (simp add: b'_def)
  show "cBuffer_contents b' = cBuffer_contents b @ [c]"
    unfolding cBuffer_contents_def u' f' d'
    using idx last len
    by (auto simp add: unat_C_BUFFER_SIZE)
qed

lemma add_char_full:
  "cBuffer_valid b \<Longrightarrow> unat (cBuffer_get_usedSpace b) = 49 \<Longrightarrow>
   cBuffer_add_char b c = (CBUFFER_FULL, b)"
  by (simp add: cBuffer_add_char_def cBuffer_full_iff)

lemma read_char_success:
  fixes b :: cBuffer_t
  assumes v: "cBuffer_valid b" and u: "0 < unat (cBuffer_get_usedSpace b)"
  defines "b' \<equiv> b\<lparr>front := (front b + 1) mod C_BUFFER_SIZE\<rparr>"
  shows "cBuffer_read_char b rc = (CBUFFER_SUCCESS, b', hd (cBuffer_contents b))"
    and "cBuffer_valid b'"
    and "unat (cBuffer_get_usedSpace b') = unat (cBuffer_get_usedSpace b) - 1"
    and "cBuffer_contents b' = tl (cBuffer_contents b)"
proof -
  have f: "unat (front b) < 50" and r: "unat (rear b) < 50" and len: "length (data b) = 50"
    using v by (simp_all add: cBuffer_valid_def unat_lt_C unat_C_BUFFER_SIZE)
  have ub: "unat (cBuffer_get_usedSpace b) = (unat (rear b) + 50 - unat (front b)) mod 50"
    using v by (simp add: cBuffer_valid_def used_unat)
  from v u have ne: "front b \<noteq> rear b"
    by (simp add: cBuffer_empty_iff)
  have f': "unat (front b') = Suc (unat (front b)) mod 50"
    using v by (simp add: b'_def cBuffer_valid_def next_unat)
  have hd: "hd (cBuffer_contents b) = data b ! (Suc (unat (front b)) mod 50)"
    using u by (simp add: cBuffer_contents_def hd_map unat_C_BUFFER_SIZE upt_conv_Cons)
  show "cBuffer_read_char b rc = (CBUFFER_SUCCESS, b', hd (cBuffer_contents b))"
    using ne f' by (simp add: cBuffer_read_char_def Let_def hd) (simp add: b'_def)
  show v': "cBuffer_valid b'"
    using v by (simp add: cBuffer_valid_def b'_def next_lt)
  have ub': "unat (cBuffer_get_usedSpace b') = (unat (rear b') + 50 - unat (front b')) mod 50"
    using v' by (simp add: cBuffer_valid_def used_unat)
  have r': "rear b' = rear b" and d': "data b' = data b"
    by (simp_all add: b'_def)
  show u': "unat (cBuffer_get_usedSpace b') = unat (cBuffer_get_usedSpace b) - 1"
    using u unfolding ub' ub r' f' by (rule used50_after_read[OF f r])
  have "tl (map g [0..<n]) = map (\<lambda>i. g (Suc i)) [0..<n - 1]" for g :: "nat \<Rightarrow> uint8_t" and n
    by (cases n) (simp_all add: upt_conv_Cons map_Suc_upt[symmetric] del: upt_Suc)
  then show "cBuffer_contents b' = tl (cBuffer_contents b)"
    unfolding cBuffer_contents_def u' f' d'
    by (simp add: unat_C_BUFFER_SIZE slot50_shift)
qed

lemma read_char_empty:
  "cBuffer_valid b \<Longrightarrow> unat (cBuffer_get_usedSpace b) = 0 \<Longrightarrow>
   cBuffer_read_char b rc = (CBUFFER_EMPTY, b, rc)"
  by (simp add: cBuffer_read_char_def cBuffer_empty_iff)

subsection \<open>Validity is kept\<close>

lemma Init_valid: "cBuffer_valid (cBuffer_Init b)"
  by (simp add: cBuffer_valid_def cBuffer_Init_def C_BUFFER_SIZE_def)

lemma add_char_valid: "cBuffer_valid b \<Longrightarrow> cBuffer_valid (snd (cBuffer_add_char b c))"
  by (simp add: cBuffer_valid_def cBuffer_add_char_def Let_def next_lt)

lemma read_char_valid: "cBuffer_valid b \<Longrightarrow> cBuffer_valid (fst (snd (cBuffer_read_char b rc)))"
  by (simp add: cBuffer_valid_def cBuffer_read_char_def Let_def next_lt)

lemma add_string_loop_valid:
  "cBuffer_valid b \<Longrightarrow> cBuffer_valid (add_string_loop b s i n)"
proof (induction b s i n rule: add_string_loop.induct)
  case (1 b s i n)
  show ?case
  proof (cases "i < n")
    case True
    with 1 show ?thesis
      by (subst add_string_loop.simps) (simp add: add_char_valid)
  next
    case False
    with 1 show ?thesis
      by (subst add_string_loop.simps) simp
  qed
qed

lemma read_string_loop_valid:
  "cBuffer_valid b \<Longrightarrow> cBuffer_valid (fst (read_string_loop b d i n))"
proof (induction b d i n rule: read_string_loop.induct)
  case (1 b d i n)
  show ?case
  proof (cases "i < n")
    case True
    obtain st b1 c where rc: "cBuffer_read_char b (d i) = (st, b1, c)"
      by (cases "cBuffer_read_char b (d i)") auto
    have "cBuffer_valid b1"
      using read_char_valid[OF 1(2), of "d i"] rc by simp
    with 1(1)[OF True rc[symmetric]] True rc show ?thesis
      by (subst read_string_loop.simps) (simp add: fun_upd_def)
  next
    case False
    with 1 show ?thesis
      by (subst read_string_loop.simps) simp
  qed
qed

lemma add_string_valid: "cBuffer_valid b \<Longrightarrow> cBuffer_valid (snd (cBuffer_add_string b s))"
  by (simp add: cBuffer_add_string_def Let_def add_char_valid add_string_loop_valid)

lemma read_string_valid:
  "cBuffer_valid b \<Longrightarrow> cBuffer_valid (fst (snd (cBuffer_read_string b n d)))"
  using read_string_loop_valid[of b d 0 "unat n"]
  by (auto simp add: cBuffer_read_string_def Let_def split: prod.split)

lemma peek_unchanged: "fst (snd (cBuffer_peek b i p)) = b"
  by (simp add: cBuffer_peek_def Let_def)

lemma reachable_valid: "cBuffer_reachable b \<Longrightarrow> cBuffer_valid b"
  by (induction rule: cBuffer_reachable.induct)
    (simp_all add: Init_valid cBuffer_Clean_def add_char_valid read_char_valid
      add_string_valid read_string_valid peek_unchanged)

subsection \<open>Sequences of calls\<close>

lemma length_contents: "length (cBuffer_contents b) = unat (cBuffer_get_usedSpace b)"
  by (simp add: cBuffer_contents_def)

lemma Init_used: "cBuffer_get_usedSpace (cBuffer_Init b) = 0"
  by (simp add: cBuffer_get_usedSpace_def cBuffer_Init_def)

lemma Init_contents: "cBuffer_contents (cBuffer_Init b) = []"
  by (simp add: cBuffer_contents_def Init_used)

text \<open>Pushing a list of bytes stores as many of them as there is room for.\<close>

lemma add_char_seq_contents:
  "cBuffer_valid b \<Longrightarrow>
   cBuffer_valid (snd (add_char_seq b cs)) \<and>
   front (snd (add_char_seq b cs)) = front b \<and>
   cBuffer_contents (snd (add_char_seq b cs)) =
     cBuffer_contents b @ take (49 - unat (cBuffer_get_usedSpace b)) cs"
proof (induction cs arbitrary: b)
  case Nil
  then show ?case by simp
next
  case (Cons c cs)
  show ?case
  proof (cases "unat (cBuffer_get_usedSpace b) < 49")
    case True
    let ?b' = "b\<lparr>rear := (rear b + 1) mod C_BUFFER_SIZE,
                  data := (data b)[unat ((rear b + 1) mod C_BUFFER_SIZE) := c]\<rparr>"
    note s = add_char_success[OF Cons.prems True, of c]
    have t: "take (49 - unat (cBuffer_get_usedSpace b)) (c # cs)
        = c # take (49 - Suc (unat (cBuffer_get_usedSpace b))) cs"
    proof -
      from True have "49 - unat (cBuffer_get_usedSpace b) = Suc (49 - Suc (unat (cBuffer_get_usedSpace b)))"
        by simp
      then show ?thesis
        by (simp only: take_Suc_Cons)
    qed
    from Cons.IH[OF s(2)] show ?thesis
      unfolding t by (simp add: s case_prod_beta)
  next
    case False
    with used_le[OF Cons.prems] have u: "unat (cBuffer_get_usedSpace b) = 49"
      by simp
    from Cons.IH[OF Cons.prems] show ?thesis
      by (simp add: add_char_full[OF Cons.prems u] u case_prod_beta)
  qed
qed

text \<open>While there is room, every push succeeds.\<close>

lemma add_char_seq_status:
  "cBuffer_valid b \<Longrightarrow> unat (cBuffer_get_usedSpace b) + length cs \<le> 49 \<Longrightarrow>
   fst (add_char_seq b cs) = replicate (length cs) CBUFFER_SUCCESS"
proof (induction cs arbitrary: b)
  case Nil
  then show ?case by simp
next
  case (Cons c cs)
  from Cons.prems have u: "unat (cBuffer_get_usedSpace b) < 49"
    by simp
  note s = add_char_success[OF Cons.prems(1) u, of c]
  have "fst (add_char_seq (snd (cBuffer_add_char b c)) cs) = replicate (length cs) CBUFFER_SUCCESS"
    using Cons.prems(2) by (intro Cons.IH) (simp_all add: s)
  then show ?case
    by (simp add: s case_prod_beta)
qed

lemma add_char_seq_append:
  "add_char_seq b (xs @ ys) =
     (fst (add_char_seq b xs) @ fst (add_char_seq (snd (add_char_seq b xs)) ys),
      snd (add_char_seq (snd (add_char_seq b xs)) ys))"
  by (induction xs arbitrary: b) (simp_all add: case_prod_beta)

text \<open>Popping \<open>n\<close> stored bytes yields them oldest first.\<close>

lemma read_char_seq_contents:
  "cBuffer_valid b \<Longrightarrow> n \<le> unat (cBuffer_get_usedSpace b) \<Longrightarrow>
   fst (read_char_seq b n rc) = map (Pair CBUFFER_SUCCESS) (take n (cBuffer_contents b)) \<and>
   cBuffer_valid (snd (read_char_seq b n rc)) \<and>
   cBuffer_contents (snd (read_char_seq b n rc)) = drop n (cBuffer_contents b) \<and>
   rear (snd (read_char_seq b n rc)) = rear b \<and>
   data (snd (read_char_seq b n rc)) = data b"
proof (induction n arbitrary: b rc)
  case 0
  then show ?case by simp
next
  case (Suc n)
  from Suc.prems have u: "0 < unat (cBuffer_get_usedSpace b)"
    by simp
  note s = read_char_success[OF Suc.prems(1) u]
  let ?b' = "b\<lparr>front := (front b + 1) mod C_BUFFER_SIZE\<rparr>"
  have ne: "cBuffer_contents b \<noteq> []"
    using u by (simp add: length_contents[symmetric])
  have n: "n \<le> unat (cBuffer_get_usedSpace ?b')"
    using Suc.prems(2) by (simp add: s)
  from Suc.IH[OF s(2) n, of "hd (cBuffer_contents b)"] ne show ?case
    by (simp add: s case_prod_beta take_Suc drop_Suc)
qed

subsection \<open>The loops of the string functions\<close>

lemma add_string_loop_seq:
  "i \<le> n \<Longrightarrow> n \<le> length s \<Longrightarrow>
   add_string_loop b s i n = snd (add_char_seq b (drop i (take n s)))"
proof (induction b s i n rule: add_string_loop.induct)
  case (1 b s i n)
  show ?case
  proof (cases "i < n")
    case True
    with 1(3) have d: "drop i (take n s) = s ! i # drop (Suc i) (take n s)"
      by (simp add: Cons_nth_drop_Suc[symmetric])
    from True 1 show ?thesis
      by (subst add_string_loop.simps) (simp add: d case_prod_beta)
  next
    case False
    with 1 show ?thesis
      by (subst add_string_loop.simps) simp
  qed
qed

lemma read_string_loop_seq:
  "cBuffer_valid b \<Longrightarrow> n - i \<le> unat (cBuffer_get_usedSpace b) \<Longrightarrow>
   read_string_loop b d i n =
     (snd (read_char_seq b (n - i) rc),
      \<lambda>j. if i \<le> j \<and> j < n then cBuffer_contents b ! (j - i) else d j)"
proof (induction b d i n arbitrary: rc rule: read_string_loop.induct)
  case (1 b d i n)
  show ?case
  proof (cases "i < n")
    case True
    with 1(3) have u: "0 < unat (cBuffer_get_usedSpace b)"
      by simp
    note s = read_char_success[OF 1(2) u]
    let ?b' = "b\<lparr>front := (front b + 1) mod C_BUFFER_SIZE\<rparr>"
    let ?c = "hd (cBuffer_contents b)"
    have ne: "cBuffer_contents b \<noteq> []"
      using u by (simp add: length_contents[symmetric])
    have n: "n - Suc i \<le> unat (cBuffer_get_usedSpace ?b')"
      using 1(3) by (simp add: s)
    have ih: "read_string_loop ?b' (d(i := ?c)) (Suc i) n =
      (snd (read_char_seq ?b' (n - Suc i) ?c),
       \<lambda>j. if Suc i \<le> j \<and> j < n then cBuffer_contents ?b' ! (j - Suc i) else (d(i := ?c)) j)"
      by (rule 1(1)[OF True s(1)[symmetric] refl s(2) n])
    have k: "n - i = Suc (n - Suc i)"
      using True by simp
    have f: "(\<lambda>j. if Suc i \<le> j \<and> j < n then cBuffer_contents ?b' ! (j - Suc i) else (d(i := ?c)) j)
        = (\<lambda>j. if i \<le> j \<and> j < n then cBuffer_contents b ! (j - i) else d j)"
    proof -
      from ne obtain c0 cs0 where cc: "cBuffer_contents b = c0 # cs0"
        by (cases "cBuffer_contents b") auto
      show ?thesis
        using True by (auto simp add: fun_eq_iff s(4) cc nth_Cons' le_Suc_eq)
    qed
    show ?thesis
      using True
      by (subst read_string_loop.simps) (simp add: s ih k f case_prod_beta)
  next
    case False
    then show ?thesis
      by (subst read_string_loop.simps) (auto simp add: fun_eq_iff)
  qed
qed

subsection \<open>The string functions\<close>

lemma add_string_overflow:
  "cBuffer_get_availableSpace b < of_nat (length s) + 1 \<Longrightarrow>
   cBuffer_add_string b s = (CBUFFER_OVERFLOW, b)"
  by (simp add: cBuffer_add_string_def Let_def)

lemma add_string_no_overflow:
  assumes "\<not> cBuffer_get_availableSpace b < of_nat (length s) + 1" and "length s < 2 ^ 32"
  shows "cBuffer_add_string b s = (CBUFFER_SUCCESS, snd (add_char_seq b (s @ [0])))"
proof -
  have n: "unat (of_nat (length s) :: uint32_t) = length s"
    using assms(2) by (simp add: unat_of_nat)
  have "add_string_loop b s 0 (length s) = snd (add_char_seq b s)"
    using add_string_loop_seq[of 0 "length s" s b] by simp
  then show ?thesis
    using assms(1) by (simp add: cBuffer_add_string_def Let_def n add_char_seq_append case_prod_beta)
qed

lemma unat_strlen_plus_1:
  "length s + 1 < 2 ^ 32 \<Longrightarrow> unat ((of_nat (length s) :: uint32_t) + 1) = length s + 1"
  by (simp add: unat_word_ariths unat_of_nat)

lemma read_string_fail:
  "cBuffer_get_usedSpace b < n \<Longrightarrow> cBuffer_read_string b n d = (CBUFFER_FAIL, b, d)"
  by (simp add: cBuffer_read_string_def Let_def)

lemma read_string_success:
  assumes "cBuffer_valid b" and "\<not> cBuffer_get_usedSpace b < n"
  shows "cBuffer_read_string b n d =
           (CBUFFER_SUCCESS, snd (read_char_seq b (unat n) rc),
            (\<lambda>j. if j < unat n then cBuffer_contents b ! j else d j)(unat n := 0))"
proof -
  from assms(2) have "unat n \<le> unat (cBuffer_get_usedSpace b)"
    by (simp add: word_less_nat_alt)
  then have "read_string_loop b d 0 (unat n) =
      (snd (read_char_seq b (unat n) rc), \<lambda>j. if j < unat n then cBuffer_contents b ! j else d j)"
    using read_string_loop_seq[OF assms(1), of "unat n" 0 d rc] by (simp cong: if_cong)
  with assms(2) show ?thesis
    by (simp add: cBuffer_read_string_def Let_def)
qed

subsection \<open>The example buffers\<close>

lemma Init_avail: "cBuffer_get_availableSpace (cBuffer_Init b) = 49"
  by (simp add: cBuffer_get_availableSpace_def cBuffer_Init_def C_BUFFER_SIZE_def)

lemma buffer_AB_eq:
  "buffer_AB = \<lparr>data = 0 # 65 # 66 # replicate 47 0, front = 0, rear = 2\<rparr>"
  by (simp add: buffer_AB_def stale_buffer_def cBuffer_Init_def cBuffer_add_char_def
      C_BUFFER_SIZE_def Let_def) code_simp

lemma buffer_AB_valid: "cBuffer_valid buffer_AB"
  by (simp add: buffer_AB_def add_char_valid Init_valid)

lemma buffer_AB_used: "cBuffer_get_usedSpace buffer_AB = 2"
  by (simp add: buffer_AB_eq cBuffer_get_usedSpace_def)

lemma buffer_AB_contents: "cBuffer_contents buffer_AB = [65, 66]"
  by (simp add: cBuffer_contents_def buffer_AB_used) (simp add: buffer_AB_eq C_BUFFER_SIZE_def upt_rec)

subsection \<open>Peeking, and the strings of the examples\<close>

lemma peek_index_unat:
  assumes "cBuffer_valid b" and "i < cBuffer_get_usedSpace b"
  shows "unat ((front b + i + 1) mod C_BUFFER_SIZE) = (unat (front b) + 1 + unat i) mod 50"
proof -
  have f: "unat (front b) < 50"
    using assms(1) by (simp add: cBuffer_valid_def unat_lt_C)
  have "unat i < unat (cBuffer_get_usedSpace b)"
    using assms(2) by (simp add: word_less_nat_alt)
  with used_le[OF assms(1)] have i: "unat i < 49"
    by simp
  have "unat (front b + i + 1) = unat (front b) + unat i + 1"
    using f i by (simp add: unat_word_ariths)
  then show ?thesis
    by (simp add: unat_mod unat_C_BUFFER_SIZE)
qed

lemma peek_contents:
  assumes "cBuffer_valid b" and "i < cBuffer_get_usedSpace b"
  shows "data b ! unat ((front b + i + 1) mod C_BUFFER_SIZE) = cBuffer_contents b ! unat i"
proof -
  have "unat i < unat (cBuffer_get_usedSpace b)"
    using assms(2) by (simp add: word_less_nat_alt)
  then show ?thesis
    by (simp add: cBuffer_contents_def peek_index_unat[OF assms] unat_C_BUFFER_SIZE)
qed

lemma used_of_contents:
  "cBuffer_contents b = xs \<Longrightarrow> length xs < 2 ^ 32 \<Longrightarrow> cBuffer_get_usedSpace b = of_nat (length xs)"
  using length_contents[of b] by (simp add: word_unat_eq_iff unat_of_nat)

lemma length_hello: "length hello = 5"
  by (simp add: hello_def)

lemma add_string_fits:
  assumes v: "cBuffer_valid b" and n: "length s + 1 < 2 ^ 32"
    and a: "\<not> unat (cBuffer_get_availableSpace b) < length s + 1"
  shows "cBuffer_add_string b s = (CBUFFER_SUCCESS, snd (add_char_seq b (s @ [0])))"
    and "fst (add_char_seq b (s @ [0])) = replicate (length s + 1) CBUFFER_SUCCESS"
    and "cBuffer_valid (snd (add_char_seq b (s @ [0])))"
    and "front (snd (add_char_seq b (s @ [0]))) = front b"
    and "cBuffer_contents (snd (add_char_seq b (s @ [0]))) = cBuffer_contents b @ s @ [0]"
proof -
  have "\<not> cBuffer_get_availableSpace b < of_nat (length s) + 1"
    using a n by (simp add: word_less_nat_alt unat_strlen_plus_1)
  then show "cBuffer_add_string b s = (CBUFFER_SUCCESS, snd (add_char_seq b (s @ [0])))"
    using n by (intro add_string_no_overflow) simp_all
  have "unat (cBuffer_get_availableSpace b) = 49 - unat (cBuffer_get_usedSpace b)"
    using v by (simp add: cBuffer_valid_def avail_unat)
  with a have u: "unat (cBuffer_get_usedSpace b) + length (s @ [0]) \<le> 49"
    by simp
  show "fst (add_char_seq b (s @ [0])) = replicate (length s + 1) CBUFFER_SUCCESS"
    using add_char_seq_status[OF v u] by simp
  from u have t: "take (49 - unat (cBuffer_get_usedSpace b)) (s @ [0]) = s @ [0]"
    by (intro take_all) simp
  show "cBuffer_valid (snd (add_char_seq b (s @ [0])))"
    and "front (snd (add_char_seq b (s @ [0]))) = front b"
    and "cBuffer_contents (snd (add_char_seq b (s @ [0]))) = cBuffer_contents b @ s @ [0]"
    using add_char_seq_contents[OF v, of "s @ [0]"] unfolding t by simp_all
qed

lemma add_string_Init_hello:
  "cBuffer_add_string (cBuffer_Init b0) hello =
     (CBUFFER_SUCCESS, snd (add_char_seq (cBuffer_Init b0) (hello @ [0])))"
  by (rule add_string_no_overflow) (simp_all add: Init_avail length_hello)

lemma hello_pushed:
  "cBuffer_valid (snd (cBuffer_add_string (cBuffer_Init b0) hello))"
  "cBuffer_contents (snd (cBuffer_add_string (cBuffer_Init b0) hello)) = hello @ [0]"
  "cBuffer_get_usedSpace (snd (cBuffer_add_string (cBuffer_Init b0) hello)) = 6"
proof -
  let ?b1 = "snd (cBuffer_add_string (cBuffer_Init b0) hello)"
  show v: "cBuffer_valid ?b1"
    by (simp add: add_string_valid Init_valid)
  have "cBuffer_contents (snd (add_char_seq (cBuffer_Init b0) (hello @ [0]))) =
      cBuffer_contents (cBuffer_Init b0) @
        take (49 - unat (cBuffer_get_usedSpace (cBuffer_Init b0))) (hello @ [0])"
    using add_char_seq_contents[OF Init_valid, of b0 "hello @ [0]"] by (elim conjE)
  then show c: "cBuffer_contents ?b1 = hello @ [0]"
    by (simp add: add_string_Init_hello Init_used Init_contents length_hello)
  show "cBuffer_get_usedSpace ?b1 = 6"
    using used_of_contents[OF c] by (simp add: length_hello)
qed

lemma hello_read:
  fixes b0 :: cBuffer_t and dest :: "nat \<Rightarrow> uint8_t"
  defines "r \<equiv> cBuffer_read_string (snd (cBuffer_add_string (cBuffer_Init b0) hello)) 5 dest"
  shows "fst r = CBUFFER_SUCCESS"
    and "map (snd (snd r)) [0..<6] = hello @ [0]"
    and "cBuffer_contents (fst (snd r)) = [0]"
    and "cBuffer_get_usedSpace (fst (snd r)) = 1"
proof -
  let ?b1 = "snd (cBuffer_add_string (cBuffer_Init b0) hello)"
  have u: "\<not> cBuffer_get_usedSpace ?b1 < 5" and u': "5 \<le> unat (cBuffer_get_usedSpace ?b1)"
    by (simp_all add: hello_pushed)
  have rs: "r = (CBUFFER_SUCCESS, snd (read_char_seq ?b1 5 0),
      (\<lambda>j. if j < 5 then (hello @ [0]) ! j else dest j)(5 := 0))"
    using read_string_success[OF hello_pushed(1) u, of dest 0] by (simp add: r_def hello_pushed(2) cong: if_cong)
  have s: "cBuffer_contents (snd (read_char_seq ?b1 5 0)) = drop 5 (hello @ [0])"
    using read_char_seq_contents[OF hello_pushed(1) u', of 0] by (simp add: hello_pushed(2))
  show "fst r = CBUFFER_SUCCESS"
    by (simp add: rs)
  show "map (snd (snd r)) [0..<6] = hello @ [0]"
    unfolding rs hello_def by (simp add: upt_rec)
  show c: "cBuffer_contents (fst (snd r)) = [0]"
    using s by (simp add: rs length_hello)
  show "cBuffer_get_usedSpace (fst (snd r)) = 1"
    using used_of_contents[OF c] by simp
qed

subsection \<open>Every valid buffer is reachable\<close>

lemma unat_idx: "unat (of_nat (n mod 50) :: uint32_t) = n mod 50"
  by (simp add: unat_of_nat)

lemma idx_lt_C: "(of_nat (n mod 50) :: uint32_t) < C_BUFFER_SIZE"
  by (simp add: unat_lt_C unat_idx)

lemma idx_next: "((of_nat (n mod 50) :: uint32_t) + 1) mod C_BUFFER_SIZE = of_nat (Suc n mod 50)"
  by (simp add: word_unat_eq_iff next_unat idx_lt_C unat_idx mod_Suc_eq)

lemma idx_unat: "x < C_BUFFER_SIZE \<Longrightarrow> (of_nat (unat x mod 50) :: uint32_t) = x"
  by (simp add: word_unat_eq_iff unat_idx unat_lt_C)

text \<open>Pushing the byte a slot already holds moves \<open>rear\<close> only.\<close>

lemma reach_rear:
  "cBuffer_reachable b \<Longrightarrow> unat (cBuffer_get_usedSpace b) + k \<le> 49 \<Longrightarrow>
   cBuffer_reachable (b\<lparr>rear := of_nat ((unat (rear b) + k) mod 50)\<rparr>) \<and>
   unat (cBuffer_get_usedSpace (b\<lparr>rear := of_nat ((unat (rear b) + k) mod 50)\<rparr>)) =
     unat (cBuffer_get_usedSpace b) + k"
proof (induction k)
  case 0
  have "rear b < C_BUFFER_SIZE"
    using reachable_valid[OF 0(1)] by (simp add: cBuffer_valid_def)
  then have "b\<lparr>rear := of_nat ((unat (rear b) + 0) mod 50)\<rparr> = b"
    by (simp add: idx_unat)
  with 0 show ?case by simp
next
  case (Suc k)
  let ?bk = "b\<lparr>rear := of_nat ((unat (rear b) + k) mod 50)\<rparr>"
  let ?c = "data b ! (Suc (unat (rear b) + k) mod 50)"
  from Suc have r: "cBuffer_reachable ?bk"
    and u: "unat (cBuffer_get_usedSpace ?bk) = unat (cBuffer_get_usedSpace b) + k"
    by simp_all
  have lt: "unat (cBuffer_get_usedSpace ?bk) < 49"
    using Suc.prems(2) u by simp
  note s = add_char_success[OF reachable_valid[OF r] lt, of ?c]
  have e: "?bk\<lparr>rear := (rear ?bk + 1) mod C_BUFFER_SIZE,
                data := (data ?bk)[unat ((rear ?bk + 1) mod C_BUFFER_SIZE) := ?c]\<rparr>
      = b\<lparr>rear := of_nat ((unat (rear b) + Suc k) mod 50)\<rparr>"
    by (simp add: idx_next unat_idx)
  have "cBuffer_reachable (snd (cBuffer_add_char ?bk ?c))"
    using r by (rule reach_add_char)
  then have "cBuffer_reachable (b\<lparr>rear := of_nat ((unat (rear b) + Suc k) mod 50)\<rparr>)"
    unfolding s(1) snd_conv e .
  moreover have "unat (cBuffer_get_usedSpace (b\<lparr>rear := of_nat ((unat (rear b) + Suc k) mod 50)\<rparr>))
      = unat (cBuffer_get_usedSpace b) + Suc k"
    using s(3) u unfolding e by simp
  ultimately show ?case by simp
qed

text \<open>Popping moves \<open>front\<close> only.\<close>

lemma reach_front:
  "cBuffer_reachable b \<Longrightarrow> k \<le> unat (cBuffer_get_usedSpace b) \<Longrightarrow>
   cBuffer_reachable (b\<lparr>front := of_nat ((unat (front b) + k) mod 50)\<rparr>) \<and>
   unat (cBuffer_get_usedSpace (b\<lparr>front := of_nat ((unat (front b) + k) mod 50)\<rparr>)) =
     unat (cBuffer_get_usedSpace b) - k"
proof (induction k)
  case 0
  have "front b < C_BUFFER_SIZE"
    using reachable_valid[OF 0(1)] by (simp add: cBuffer_valid_def)
  then have "b\<lparr>front := of_nat ((unat (front b) + 0) mod 50)\<rparr> = b"
    by (simp add: idx_unat)
  with 0 show ?case by simp
next
  case (Suc k)
  let ?bk = "b\<lparr>front := of_nat ((unat (front b) + k) mod 50)\<rparr>"
  from Suc have r: "cBuffer_reachable ?bk"
    and u: "unat (cBuffer_get_usedSpace ?bk) = unat (cBuffer_get_usedSpace b) - k"
    by simp_all
  have gt: "0 < unat (cBuffer_get_usedSpace ?bk)"
    using Suc.prems(2) u by simp
  note s = read_char_success[OF reachable_valid[OF r] gt]
  have e: "?bk\<lparr>front := (front ?bk + 1) mod C_BUFFER_SIZE\<rparr>
      = b\<lparr>front := of_nat ((unat (front b) + Suc k) mod 50)\<rparr>"
    by (simp add: idx_next)
  have "cBuffer_reachable (fst (snd (cBuffer_read_char ?bk 0)))"
    using r by (rule reach_read_char)
  then have "cBuffer_reachable (b\<lparr>front := of_nat ((unat (front b) + Suc k) mod 50)\<rparr>)"
    unfolding s(1) snd_conv fst_conv e .
  moreover have "unat (cBuffer_get_usedSpace (b\<lparr>front := of_nat ((unat (front b) + Suc k) mod 50)\<rparr>))
      = unat (cBuffer_get_usedSpace b) - Suc k"
    using s(3) u unfolding e by simp
  ultimately show ?case by simp
qed

text \<open>Any array can be written: slots 1 to 49 by pushes, slot 0 after one pop.\<close>

lemma reach_filled:
  "k \<le> 49 \<Longrightarrow>
   cBuffer_reachable
     \<lparr>data = map (\<lambda>j. if Suc 0 \<le> j \<and> j \<le> k then d ! j else 0) [0..<50],
      front = 0, rear = of_nat k\<rparr>"
proof (induction k)
  case 0
  have "cBuffer_Init \<lparr>data = [], front = 0, rear = 0\<rparr> =
      \<lparr>data = map (\<lambda>j. if Suc 0 \<le> j \<and> j \<le> 0 then d ! j else 0) [0..<50], front = 0, rear = of_nat 0\<rparr>"
    by (auto intro!: nth_equalityI simp add: cBuffer_Init_def unat_C_BUFFER_SIZE)
  then show ?case
    using reach_Init[of "\<lparr>data = [], front = 0, rear = 0\<rparr>"] by simp
next
  case (Suc k)
  let ?g = "\<lambda>k j. if Suc 0 \<le> j \<and> j \<le> k then d ! j else (0 :: uint8_t)"
  let ?p = "\<lparr>data = map (?g k) [0..<50], front = 0, rear = of_nat k\<rparr>"
  from Suc have k: "k < 49" and r: "cBuffer_reachable ?p"
    by simp_all
  have ru: "unat (of_nat k :: uint32_t) = k"
    using k by (simp add: unat_of_nat)
  have u: "unat (cBuffer_get_usedSpace ?p) = k"
    using k by (simp add: cBuffer_get_usedSpace_def ru)
  then have lt: "unat (cBuffer_get_usedSpace ?p) < 49"
    using k by simp
  have n: "(rear ?p + 1) mod C_BUFFER_SIZE = of_nat (Suc k)"
    using idx_next[of k] k by simp
  have d: "(map (?g k) [0..<50])[Suc k := d ! Suc k] = map (?g (Suc k)) [0..<50]"
    using k by (auto intro!: nth_equalityI simp add: nth_list_update)
  have e: "?p\<lparr>rear := (rear ?p + 1) mod C_BUFFER_SIZE,
              data := (data ?p)[unat ((rear ?p + 1) mod C_BUFFER_SIZE) := d ! Suc k]\<rparr> =
      \<lparr>data = map (?g (Suc k)) [0..<50], front = 0, rear = of_nat (Suc k)\<rparr>"
  proof -
    have "unat (of_nat (Suc k) :: uint32_t) = Suc k"
      using k unfolding unat_of_nat by simp
    then have "unat (1 + of_nat k :: uint32_t) = Suc k"
      by simp
    then show ?thesis
      unfolding n using d by simp
  qed
  have "cBuffer_reachable (snd (cBuffer_add_char ?p (d ! Suc k)))"
    using r by (rule reach_add_char)
  then show ?case
    unfolding add_char_success(1)[OF reachable_valid[OF r] lt] snd_conv e .
qed

lemma reach_blank:
  assumes "length d = 50"
  shows "cBuffer_reachable \<lparr>data = d, front = 0, rear = 0\<rparr>"
proof -
  let ?g = "\<lambda>j. if Suc 0 \<le> j \<and> j \<le> 49 then d ! j else (0 :: uint8_t)"
  let ?p = "\<lparr>data = map ?g [0..<50], front = 0, rear = 49\<rparr>"
  let ?q = "\<lparr>data = map ?g [0..<50], front = 1, rear = 49\<rparr>"
  let ?s = "\<lparr>data = d, front = 1, rear = 0\<rparr>"
  have p: "cBuffer_reachable ?p"
    using reach_filled[of 49 d] by simp
  have up: "unat (cBuffer_get_usedSpace ?p) = 49"
    by (simp add: cBuffer_get_usedSpace_def)
  have "cBuffer_reachable (fst (snd (cBuffer_read_char ?p 0)))"
    using p by (rule reach_read_char)
  then have q: "cBuffer_reachable ?q"
    by (simp add: cBuffer_read_char_def C_BUFFER_SIZE_def)
  have dd: "(map ?g [0..<50])[0 := d ! 0] = d"
    using assms by (auto intro!: nth_equalityI simp add: nth_list_update)
  have "cBuffer_reachable (snd (cBuffer_add_char ?q (d ! 0)))"
    using q by (rule reach_add_char)
  then have s: "cBuffer_reachable ?s"
    by (simp add: cBuffer_add_char_def C_BUFFER_SIZE_def dd)
  have us: "unat (cBuffer_get_usedSpace ?s) = 49"
    by (simp add: cBuffer_get_usedSpace_def C_BUFFER_SIZE_def)
  from reach_front[OF s, of 49] us show ?thesis
    by simp
qed

lemma slot50_back: "f < 50 \<Longrightarrow> r < 50 \<Longrightarrow> (f + (r + 50 - f) mod 50) mod 50 = (r::nat)"
  by (cases "f \<le> r") (auto simp add: used50 mod50)

lemma valid_reachable:
  assumes "cBuffer_valid b"
  shows "cBuffer_reachable b"
proof -
  let ?f = "unat (front b)" and ?r = "unat (rear b)"
  have f: "?f < 50" and r: "?r < 50" and len: "length (data b) = 50"
    and fw: "front b < C_BUFFER_SIZE" and rw: "rear b < C_BUFFER_SIZE"
    using assms by (simp_all add: cBuffer_valid_def unat_lt_C unat_C_BUFFER_SIZE)
  let ?b0 = "\<lparr>data = data b, front = 0, rear = 0\<rparr>"
  let ?b1 = "\<lparr>data = data b, front = 0, rear = front b\<rparr>"
  let ?b2 = "\<lparr>data = data b, front = front b, rear = front b\<rparr>"
  have 0: "cBuffer_reachable ?b0"
    using len by (rule reach_blank)
  have u0: "unat (cBuffer_get_usedSpace ?b0) = 0"
    by (simp add: cBuffer_get_usedSpace_def)
  have 1: "cBuffer_reachable ?b1" and u1: "unat (cBuffer_get_usedSpace ?b1) = ?f"
    using reach_rear[OF 0, of ?f] f u0 fw by (simp_all add: idx_unat)
  have 2: "cBuffer_reachable ?b2" and u2: "unat (cBuffer_get_usedSpace ?b2) = 0"
    using reach_front[OF 1, of ?f] f u1 fw by (simp_all add: idx_unat)
  have "(?r + 50 - ?f) mod 50 \<le> 49"
    by simp
  then have "cBuffer_reachable (?b2\<lparr>rear := of_nat ((?f + (?r + 50 - ?f) mod 50) mod 50)\<rparr>)"
    using reach_rear[OF 2, of "(?r + 50 - ?f) mod 50"] u2 by simp
  moreover have "\<lparr>data = data b, front = front b, rear = rear b\<rparr> = b"
    by (cases b) simp
  ultimately show ?thesis
    using rw by (simp add: slot50_back[OF f r] idx_unat)
qed

lemma reachable_iff_valid: "cBuffer_reachable b \<longleftrightarrow> cBuffer_valid b"
  using reachable_valid valid_reachable by blast

section \<open>The claims\<close>

text \<open>
  C1, conservation of space accounting. Every buffer reachable from \<open>cBuffer_Init\<close> by
  calls of the library has \<open>front\<close> and \<open>rear\<close> in \<open>[0, C_BUFFER_SIZE)\<close>, and every buffer
  with both indices in that range (and its array of \<open>C_BUFFER_SIZE\<close> elements) is
  reachable. In every buffer with both indices in that range the used space and the
  available space add up to \<open>C_BUFFER_SIZE - 1 = 49\<close>, as numbers and in the 32-bit
  arithmetic of the source.
\<close>

theorem space_conservation:
  "(cBuffer_reachable b \<longrightarrow> front b < C_BUFFER_SIZE \<and> rear b < C_BUFFER_SIZE) \<and>
   (length (data b) = unat C_BUFFER_SIZE \<and> front b < C_BUFFER_SIZE \<and> rear b < C_BUFFER_SIZE \<longrightarrow>
      cBuffer_reachable b) \<and>
   (front b < C_BUFFER_SIZE \<and> rear b < C_BUFFER_SIZE \<longrightarrow>
      unat (cBuffer_get_usedSpace b) + unat (cBuffer_get_availableSpace b) = unat C_BUFFER_SIZE - 1 \<and>
      unat C_BUFFER_SIZE - 1 = 49 \<and>
      cBuffer_get_usedSpace b + cBuffer_get_availableSpace b = C_BUFFER_SIZE - 1)"
proof (intro conjI impI)
  assume "cBuffer_reachable b"
  then have "cBuffer_valid b" by (rule reachable_valid)
  then show "front b < C_BUFFER_SIZE" and "rear b < C_BUFFER_SIZE"
    by (simp_all add: cBuffer_valid_def)
next
  assume "length (data b) = unat C_BUFFER_SIZE \<and> front b < C_BUFFER_SIZE \<and> rear b < C_BUFFER_SIZE"
  then have "cBuffer_valid b"
    by (simp add: cBuffer_valid_def)
  then show "cBuffer_reachable b"
    by (rule valid_reachable)
next
  assume r: "front b < C_BUFFER_SIZE \<and> rear b < C_BUFFER_SIZE"
  then have "unat (cBuffer_get_usedSpace b) \<le> 49"
    by (simp add: used_unat)
  with r show "unat (cBuffer_get_usedSpace b) + unat (cBuffer_get_availableSpace b)
      = unat C_BUFFER_SIZE - 1"
    by (simp add: avail_unat unat_C_BUFFER_SIZE)
  show "cBuffer_get_usedSpace b + cBuffer_get_availableSpace b = C_BUFFER_SIZE - 1"
    by (auto simp add: cBuffer_get_usedSpace_def cBuffer_get_availableSpace_def)
  show "unat C_BUFFER_SIZE - 1 = 49"
    by (simp add: unat_C_BUFFER_SIZE)
qed

text \<open>C1 on the buffer that holds \<open>A\<close> and \<open>B\<close>: 2 bytes used, 47 available.\<close>

theorem space_conservation_witness:
  "cBuffer_reachable buffer_AB \<and>
   length (data buffer_AB) = unat C_BUFFER_SIZE \<and>
   front buffer_AB < C_BUFFER_SIZE \<and> rear buffer_AB < C_BUFFER_SIZE \<and>
   cBuffer_get_usedSpace buffer_AB = 2 \<and> cBuffer_get_availableSpace buffer_AB = 47 \<and>
   unat (cBuffer_get_usedSpace buffer_AB) + unat (cBuffer_get_availableSpace buffer_AB) = 49"
proof -
  have r: "cBuffer_reachable buffer_AB"
    unfolding buffer_AB_def by (intro reach_add_char reach_Init)
  have l: "length (data buffer_AB) = unat C_BUFFER_SIZE"
    by (simp add: buffer_AB_eq C_BUFFER_SIZE_def)
  have i: "front buffer_AB < C_BUFFER_SIZE \<and> rear buffer_AB < C_BUFFER_SIZE"
    by (simp add: buffer_AB_eq C_BUFFER_SIZE_def)
  have a: "cBuffer_get_availableSpace buffer_AB = 47"
    by (simp add: buffer_AB_eq cBuffer_get_availableSpace_def C_BUFFER_SIZE_def)
  note c = space_conservation[of buffer_AB, THEN conjunct2, THEN conjunct2, THEN mp, OF i]
  have s: "unat (cBuffer_get_usedSpace buffer_AB) + unat (cBuffer_get_availableSpace buffer_AB) = 49"
    using c[THEN conjunct1] c[THEN conjunct2, THEN conjunct1] by (rule trans)
  show ?thesis
    by (intro conjI r l s a buffer_AB_used i[THEN conjunct1] i[THEN conjunct2])
qed

text \<open>
  C2, FIFO order. For every list of \<open>n \<le> C_BUFFER_SIZE - 1\<close> bytes: pushed one after the
  other into a buffer fresh from \<open>cBuffer_Init\<close>, every \<open>cBuffer_add_char\<close> returns
  \<open>CBUFFER_SUCCESS\<close>, and the \<open>n\<close> calls of \<open>cBuffer_read_char\<close> that follow each return
  \<open>CBUFFER_SUCCESS\<close> and yield the bytes in the order they were pushed.
\<close>

theorem fifo_order:
  assumes "length bs \<le> unat C_BUFFER_SIZE - 1"
  shows "fst (add_char_seq (cBuffer_Init b0) bs) = replicate (length bs) CBUFFER_SUCCESS \<and>
         fst (read_char_seq (snd (add_char_seq (cBuffer_Init b0) bs)) (length bs) readChar) =
           map (Pair CBUFFER_SUCCESS) bs"
proof -
  let ?b = "cBuffer_Init b0"
  let ?b1 = "snd (add_char_seq ?b bs)"
  have v: "cBuffer_valid ?b"
    by (rule Init_valid)
  have n: "length bs \<le> 49"
    using assms by (simp add: unat_C_BUFFER_SIZE)
  have st: "fst (add_char_seq ?b bs) = replicate (length bs) CBUFFER_SUCCESS"
    using n by (intro add_char_seq_status[OF v]) (simp add: Init_used)
  have c: "cBuffer_valid ?b1" "cBuffer_contents ?b1 = bs"
    using add_char_seq_contents[OF v, of bs] n by (simp_all add: Init_used Init_contents)
  have u: "length bs \<le> unat (cBuffer_get_usedSpace ?b1)"
    using c(2) by (simp add: length_contents[symmetric])
  show ?thesis
    using st read_char_seq_contents[OF c(1) u, of readChar] by (simp add: c(2))
qed

text \<open>C2 for the three bytes 1, 2, 3.\<close>

theorem fifo_order_witness:
  "length [1, 2, 3 :: uint8_t] \<le> unat C_BUFFER_SIZE - 1 \<and>
   fst (add_char_seq (cBuffer_Init stale_buffer) [1, 2, 3]) =
     [CBUFFER_SUCCESS, CBUFFER_SUCCESS, CBUFFER_SUCCESS] \<and>
   fst (read_char_seq (snd (add_char_seq (cBuffer_Init stale_buffer) [1, 2, 3])) 3 0) =
     [(CBUFFER_SUCCESS, 1), (CBUFFER_SUCCESS, 2), (CBUFFER_SUCCESS, 3)]"
proof -
  have l: "length [1, 2, 3 :: uint8_t] \<le> unat C_BUFFER_SIZE - 1"
    by (simp add: C_BUFFER_SIZE_def)
  from l fifo_order[OF l, of stale_buffer 0] show ?thesis
    by (simp add: numeral_3_eq_3)
qed

text \<open>
  C3, the capacity bound. Of \<open>C_BUFFER_SIZE = 50\<close> consecutive calls of \<open>cBuffer_add_char\<close>
  on a buffer fresh from \<open>cBuffer_Init\<close>, whatever the bytes, the first
  \<open>C_BUFFER_SIZE - 1 = 49\<close> return \<open>CBUFFER_SUCCESS\<close> and the 50th returns \<open>CBUFFER_FULL\<close>.
\<close>

theorem capacity_bound:
  assumes "length bs = unat C_BUFFER_SIZE"
  shows "fst (add_char_seq (cBuffer_Init b0) bs) =
           replicate (unat C_BUFFER_SIZE - 1) CBUFFER_SUCCESS @ [CBUFFER_FULL] \<and>
         unat C_BUFFER_SIZE - 1 = 49"
proof -
  let ?b = "cBuffer_Init b0"
  let ?xs = "take 49 bs"
  let ?b1 = "snd (add_char_seq ?b ?xs)"
  have n: "length bs = 50"
    using assms by (simp add: unat_C_BUFFER_SIZE)
  then have bs: "bs = ?xs @ [bs ! 49]"
    by (simp add: take_Suc_conv_app_nth[symmetric])
  have v: "cBuffer_valid ?b"
    by (rule Init_valid)
  have st: "fst (add_char_seq ?b ?xs) = replicate 49 CBUFFER_SUCCESS"
    using add_char_seq_status[OF v, of ?xs] n by (simp add: Init_used)
  have c: "cBuffer_valid ?b1" "cBuffer_contents ?b1 = ?xs"
    using add_char_seq_contents[OF v, of ?xs] by (simp_all add: Init_used Init_contents)
  have u: "unat (cBuffer_get_usedSpace ?b1) = 49"
    using c(2) n by (simp add: length_contents[symmetric])
  have "fst (add_char_seq ?b (?xs @ [bs ! 49])) = replicate 49 CBUFFER_SUCCESS @ [CBUFFER_FULL]"
    by (simp add: add_char_seq_append st add_char_full[OF c(1) u])
  with bs show ?thesis
    by (simp add: unat_C_BUFFER_SIZE)
qed

text \<open>C3 for fifty bytes \<open>A\<close>.\<close>

theorem capacity_bound_witness:
  "length (replicate 50 (65 :: uint8_t)) = unat C_BUFFER_SIZE \<and>
   fst (add_char_seq (cBuffer_Init stale_buffer) (replicate 50 65)) =
     replicate 49 CBUFFER_SUCCESS @ [CBUFFER_FULL]"
proof -
  have l: "length (replicate 50 (65 :: uint8_t)) = unat C_BUFFER_SIZE"
    by (simp add: C_BUFFER_SIZE_def)
  from l capacity_bound[OF l, of stale_buffer] show ?thesis
    by simp
qed

text \<open>
  Pushing a string whose length plus one fits \<^verbatim>\<open>uint32_t\<close> (\<open>strlen(s) + 1 < 2^32\<close>), so
  that nothing wraps. If fewer than \<open>strlen(s) + 1\<close> bytes are available,
  \<open>cBuffer_add_string\<close> returns \<open>CBUFFER_OVERFLOW\<close> and leaves the buffer as it was, for
  every value of the structure. Otherwise, in every buffer state (\<open>cBuffer_valid\<close>: the
  array of \<open>C_BUFFER_SIZE\<close> elements and both indices in range), it returns
  \<open>CBUFFER_SUCCESS\<close> and leaves the buffer that pushing the bytes of \<open>s\<close> and then a 0
  with \<open>cBuffer_add_char\<close> leaves, each of these \<open>strlen(s) + 1\<close> calls returning
  \<open>CBUFFER_SUCCESS\<close>: the stored bytes are the old ones followed by \<open>s\<close> and 0, and \<open>front\<close>
  is unchanged.
\<close>

lemma add_string_in_range:
  assumes "length s + 1 < 2 ^ 32"
  shows "(unat (cBuffer_get_availableSpace b) < length s + 1 \<longrightarrow>
            cBuffer_add_string b s = (CBUFFER_OVERFLOW, b)) \<and>
         (cBuffer_valid b \<and> \<not> unat (cBuffer_get_availableSpace b) < length s + 1 \<longrightarrow>
            fst (cBuffer_add_string b s) = CBUFFER_SUCCESS \<and>
            add_char_seq b (s @ [0]) =
              (replicate (length s + 1) CBUFFER_SUCCESS, snd (cBuffer_add_string b s)) \<and>
            cBuffer_contents (snd (cBuffer_add_string b s)) = cBuffer_contents b @ s @ [0] \<and>
            front (snd (cBuffer_add_string b s)) = front b \<and>
            cBuffer_valid (snd (cBuffer_add_string b s)))"
proof (intro conjI impI)
  assume "unat (cBuffer_get_availableSpace b) < length s + 1"
  then have "cBuffer_get_availableSpace b < of_nat (length s) + 1"
    using assms by (simp add: word_less_nat_alt unat_strlen_plus_1)
  then show "cBuffer_add_string b s = (CBUFFER_OVERFLOW, b)"
    by (rule add_string_overflow)
next
  assume a: "cBuffer_valid b \<and> \<not> unat (cBuffer_get_availableSpace b) < length s + 1"
  then have v: "cBuffer_valid b" and f: "\<not> unat (cBuffer_get_availableSpace b) < length s + 1"
    by simp_all
  note r = add_string_fits[OF v assms f]
  show "fst (cBuffer_add_string b s) = CBUFFER_SUCCESS"
    and "cBuffer_contents (snd (cBuffer_add_string b s)) = cBuffer_contents b @ s @ [0]"
    and "front (snd (cBuffer_add_string b s)) = front b"
    and "cBuffer_valid (snd (cBuffer_add_string b s))"
    by (simp_all add: r)
  show "add_char_seq b (s @ [0]) =
      (replicate (length s + 1) CBUFFER_SUCCESS, snd (cBuffer_add_string b s))"
    using r(2) by (simp add: r(1) prod_eq_iff)
qed

text \<open>
  On two buffers: with 46 bytes stored and 3 available, pushing \<^verbatim>\<open>"abcd"\<close> returns
  \<open>CBUFFER_OVERFLOW\<close> and changes nothing; on a fresh buffer, pushing \<^verbatim>\<open>"hello"\<close> stores the
  five bytes and the terminator.
\<close>

lemma add_string_in_range_example:
  "length [97, 98, 99, 100 :: uint8_t] + 1 < 2 ^ 32 \<and>
   unat (cBuffer_get_availableSpace (snd (add_char_seq (cBuffer_Init stale_buffer) (replicate 46 65))))
     = 3 \<and>
   cBuffer_add_string (snd (add_char_seq (cBuffer_Init stale_buffer) (replicate 46 65)))
       [97, 98, 99, 100] =
     (CBUFFER_OVERFLOW, snd (add_char_seq (cBuffer_Init stale_buffer) (replicate 46 65))) \<and>
   length hello + 1 < 2 ^ 32 \<and>
   cBuffer_valid (cBuffer_Init stale_buffer) \<and>
   \<not> unat (cBuffer_get_availableSpace (cBuffer_Init stale_buffer)) < length hello + 1 \<and>
   fst (cBuffer_add_string (cBuffer_Init stale_buffer) hello) = CBUFFER_SUCCESS \<and>
   cBuffer_contents (snd (cBuffer_add_string (cBuffer_Init stale_buffer) hello)) =
     [104, 101, 108, 108, 111, 0]"
proof -
  let ?b = "cBuffer_Init stale_buffer"
  let ?b46 = "snd (add_char_seq ?b (replicate 46 65))"
  have l: "length [97, 98, 99, 100 :: uint8_t] + 1 < 2 ^ 32" "length hello + 1 < 2 ^ 32"
    by (simp_all add: length_hello)
  have "cBuffer_valid ?b46 \<and> front ?b46 = front ?b \<and>
      cBuffer_contents ?b46 =
        cBuffer_contents ?b @ take (49 - unat (cBuffer_get_usedSpace ?b)) (replicate 46 65)"
    by (rule add_char_seq_contents[OF Init_valid])
  then have v46: "cBuffer_valid ?b46" and c46: "cBuffer_contents ?b46 = replicate 46 65"
    by (simp_all add: Init_used Init_contents)
  have u46: "unat (cBuffer_get_usedSpace ?b46) = 46"
    using c46 by (simp add: length_contents[symmetric])
  have a46: "unat (cBuffer_get_availableSpace ?b46) = 3"
    using v46 by (simp add: cBuffer_valid_def avail_unat u46)
  have o: "cBuffer_add_string ?b46 [97, 98, 99, 100] = (CBUFFER_OVERFLOW, ?b46)"
    using add_string_in_range[OF l(1), of ?b46] a46 by simp
  have f: "\<not> unat (cBuffer_get_availableSpace ?b) < length hello + 1"
    by (simp add: Init_avail length_hello)
  have s: "fst (cBuffer_add_string ?b hello) = CBUFFER_SUCCESS"
    "cBuffer_contents (snd (cBuffer_add_string ?b hello)) = cBuffer_contents ?b @ hello @ [0]"
    using add_string_in_range[OF l(2), of ?b] f Init_valid[of stale_buffer] by auto
  from l a46 o f s Init_valid[of stale_buffer] show ?thesis
    by (simp add: Init_contents hello_def)
qed

text \<open>
  C4, pushing a string: the overflow check of the source fails to refuse a string of
  \<open>2^32 - 1 = 4294967295\<close> bytes. \<^verbatim>\<open>strlen\<close> is kept in a \<^verbatim>\<open>uint32_t\<close> and \<open>str_length + 1\<close>
  wraps to 0, so the test \<open>buffer_spaceAvailable < str_length + 1\<close> is false although only
  49 bytes are available. On a buffer fresh from \<open>cBuffer_Init\<close> the function does not
  return \<open>CBUFFER_OVERFLOW\<close> with the buffer unchanged, as the claim and the comment of the
  function (\<^verbatim>\<open>No partial data is added\<close>) say: it returns \<open>CBUFFER_SUCCESS\<close> and leaves
  the first 49 bytes of the string in the buffer, with no terminator.
\<close>

theorem add_string_length_wraps:
  "unat (cBuffer_get_availableSpace (cBuffer_Init stale_buffer))
     < length (replicate 4294967295 (65 :: uint8_t)) + 1 \<and>
   cBuffer_add_string (cBuffer_Init stale_buffer) (replicate 4294967295 65)
     \<noteq> (CBUFFER_OVERFLOW, cBuffer_Init stale_buffer) \<and>
   fst (cBuffer_add_string (cBuffer_Init stale_buffer) (replicate 4294967295 65)) = CBUFFER_SUCCESS \<and>
   cBuffer_contents (snd (cBuffer_add_string (cBuffer_Init stale_buffer) (replicate 4294967295 65)))
     = replicate 49 65"
proof -
  let ?b = "cBuffer_Init stale_buffer"
  let ?s = "replicate 4294967295 (65 :: uint8_t)"
  have a: "cBuffer_add_string ?b ?s = (CBUFFER_SUCCESS, snd (add_char_seq ?b (?s @ [0])))"
    by (rule add_string_no_overflow) (simp_all add: Init_avail)
  have "cBuffer_contents (snd (add_char_seq ?b (?s @ [0]))) =
      cBuffer_contents ?b @ take (49 - unat (cBuffer_get_usedSpace ?b)) (?s @ [0])"
    using add_char_seq_contents[OF Init_valid, of stale_buffer "?s @ [0]"] by (elim conjE)
  then have c: "cBuffer_contents (snd (add_char_seq ?b (?s @ [0]))) = replicate 49 65"
    by (simp add: Init_used Init_contents)
  show ?thesis
    by (simp add: a c Init_avail)
qed

text \<open>
  C5, the string round trip, as the claim states it, fails: on a buffer fresh from
  \<open>cBuffer_Init\<close>, \<open>cBuffer_add_string\<close> of \<^verbatim>\<open>"hello"\<close> and \<open>cBuffer_read_string\<close> with
  \<open>str_length = 5\<close> both return \<open>CBUFFER_SUCCESS\<close>, but the buffer is not empty
  afterwards: \<open>cBuffer_get_usedSpace\<close> is not 0.
\<close>

theorem round_trip_leaves_terminator:
  "fst (cBuffer_add_string (cBuffer_Init stale_buffer) hello) = CBUFFER_SUCCESS \<and>
   fst (cBuffer_read_string (snd (cBuffer_add_string (cBuffer_Init stale_buffer) hello)) 5 stale_dest)
     = CBUFFER_SUCCESS \<and>
   cBuffer_get_usedSpace
     (fst (snd (cBuffer_read_string
        (snd (cBuffer_add_string (cBuffer_Init stale_buffer) hello)) 5 stale_dest))) \<noteq> 0"
  by (simp add: add_string_Init_hello[of stale_buffer, THEN arg_cong[of _ _ fst]] hello_read)

text \<open>
  C5 as the code has it. On a buffer fresh from \<open>cBuffer_Init\<close>, \<open>cBuffer_add_string\<close> of
  \<^verbatim>\<open>"hello"\<close> and \<open>cBuffer_read_string\<close> with \<open>str_length = 5\<close> both return
  \<open>CBUFFER_SUCCESS\<close>, and cells 0 to 5 of the destination hold \<open>h\<close>, \<open>e\<close>, \<open>l\<close>, \<open>l\<close>, \<open>o\<close>, 0.
  The buffer is left with one stored byte, the terminator 0 that \<open>cBuffer_add_string\<close>
  pushed behind the string: \<open>cBuffer_get_usedSpace\<close> is 1.
\<close>

theorem string_round_trip:
  "fst (cBuffer_add_string (cBuffer_Init b0) hello) = CBUFFER_SUCCESS \<and>
   fst (cBuffer_read_string (snd (cBuffer_add_string (cBuffer_Init b0) hello)) 5 dest)
     = CBUFFER_SUCCESS \<and>
   map (snd (snd (cBuffer_read_string (snd (cBuffer_add_string (cBuffer_Init b0) hello)) 5 dest)))
     [0..<6] = hello @ [0] \<and>
   cBuffer_contents
     (fst (snd (cBuffer_read_string (snd (cBuffer_add_string (cBuffer_Init b0) hello)) 5 dest)))
     = [0] \<and>
   cBuffer_get_usedSpace
     (fst (snd (cBuffer_read_string (snd (cBuffer_add_string (cBuffer_Init b0) hello)) 5 dest)))
     = 1"
  by (simp add: add_string_Init_hello[of b0, THEN arg_cong[of _ _ fst]] hello_read)

text \<open>
  C6, peek. In every buffer, for every index \<open>i\<close>: \<open>cBuffer_peek\<close> returns
  \<open>CBUFFER_FAIL\<close> exactly when \<open>i \<ge> cBuffer_get_usedSpace\<close>, and then leaves
  \<open>*peekResult\<close> as it was; otherwise it returns \<open>CBUFFER_SUCCESS\<close> and stores
  \<open>data[(front + i + 1) mod C_BUFFER_SIZE]\<close>, computed in 32 bits as the source does; in a
  valid buffer nothing wraps there, the slot is \<open>(front + i + 1) mod 50\<close> as numbers and the
  byte is the \<open>i\<close>-th oldest stored byte. It returns the buffer it was given. When
  \<open>cBuffer_peek\<close> at index 0 succeeds, the next \<open>cBuffer_read_char\<close> succeeds and yields the
  same byte.
\<close>

theorem peek_correct:
  "(fst (cBuffer_peek b i peekResult) = CBUFFER_FAIL \<longleftrightarrow> i \<ge> cBuffer_get_usedSpace b) \<and>
   (i \<ge> cBuffer_get_usedSpace b \<longrightarrow> cBuffer_peek b i peekResult = (CBUFFER_FAIL, b, peekResult)) \<and>
   (i < cBuffer_get_usedSpace b \<longrightarrow>
      cBuffer_peek b i peekResult =
        (CBUFFER_SUCCESS, b, data b ! unat ((front b + i + 1) mod C_BUFFER_SIZE))) \<and>
   (cBuffer_valid b \<and> i < cBuffer_get_usedSpace b \<longrightarrow>
      unat ((front b + i + 1) mod C_BUFFER_SIZE) =
        (unat (front b) + unat i + 1) mod unat C_BUFFER_SIZE \<and>
      snd (snd (cBuffer_peek b i peekResult)) = cBuffer_contents b ! unat i) \<and>
   fst (snd (cBuffer_peek b i peekResult)) = b \<and>
   (fst (cBuffer_peek b 0 peekResult) = CBUFFER_SUCCESS \<longrightarrow>
      fst (cBuffer_read_char b readChar) = CBUFFER_SUCCESS \<and>
      snd (snd (cBuffer_read_char b readChar)) = snd (snd (cBuffer_peek b 0 peekResult)))"
proof -
  have "front b \<noteq> rear b" if "0 < cBuffer_get_usedSpace b"
    using that by (auto simp add: cBuffer_get_usedSpace_def C_BUFFER_SIZE_def split: if_splits)
  then have 1: "(fst (cBuffer_peek b i peekResult) = CBUFFER_FAIL \<longleftrightarrow> i \<ge> cBuffer_get_usedSpace b) \<and>
   (i \<ge> cBuffer_get_usedSpace b \<longrightarrow> cBuffer_peek b i peekResult = (CBUFFER_FAIL, b, peekResult)) \<and>
   (i < cBuffer_get_usedSpace b \<longrightarrow>
      cBuffer_peek b i peekResult =
        (CBUFFER_SUCCESS, b, data b ! unat ((front b + i + 1) mod C_BUFFER_SIZE))) \<and>
   fst (snd (cBuffer_peek b i peekResult)) = b \<and>
   (fst (cBuffer_peek b 0 peekResult) = CBUFFER_SUCCESS \<longrightarrow>
      fst (cBuffer_read_char b readChar) = CBUFFER_SUCCESS \<and>
      snd (snd (cBuffer_read_char b readChar)) = snd (snd (cBuffer_peek b 0 peekResult)))"
    by (auto simp add: cBuffer_peek_def cBuffer_read_char_def Let_def not_le word_gt_0)
  have 2: "unat ((front b + i + 1) mod C_BUFFER_SIZE) =
        (unat (front b) + unat i + 1) mod unat C_BUFFER_SIZE \<and>
      snd (snd (cBuffer_peek b i peekResult)) = cBuffer_contents b ! unat i"
    if "cBuffer_valid b \<and> i < cBuffer_get_usedSpace b"
    using that peek_contents[of b i] peek_index_unat[of b i]
    by (auto simp add: cBuffer_peek_def Let_def unat_C_BUFFER_SIZE)
  from 1 2 show ?thesis
    by blast
qed

text \<open>
  C6 on the buffer that holds \<open>A\<close> and \<open>B\<close>: index 0 is \<open>A\<close>, index 1 is \<open>B\<close>, index 2
  fails, and the next read yields \<open>A\<close>.
\<close>

theorem peek_correct_witness:
  "(0::uint32_t) < cBuffer_get_usedSpace buffer_AB \<and>
   cBuffer_valid buffer_AB \<and>
   cBuffer_peek buffer_AB 0 7 = (CBUFFER_SUCCESS, buffer_AB, 65) \<and>
   cBuffer_peek buffer_AB 1 7 = (CBUFFER_SUCCESS, buffer_AB, 66) \<and>
   (2::uint32_t) \<ge> cBuffer_get_usedSpace buffer_AB \<and>
   cBuffer_peek buffer_AB 2 7 = (CBUFFER_FAIL, buffer_AB, 7) \<and>
   fst (cBuffer_read_char buffer_AB 9) = CBUFFER_SUCCESS \<and>
   snd (snd (cBuffer_read_char buffer_AB 9)) = 65"
proof -
  have d: "data buffer_AB ! unat ((front buffer_AB + 0 + 1) mod C_BUFFER_SIZE) = 65"
    "data buffer_AB ! unat ((front buffer_AB + 1 + 1) mod C_BUFFER_SIZE) = 66"
    by (simp_all add: buffer_AB_eq C_BUFFER_SIZE_def)
  from d buffer_AB_used buffer_AB_valid
    peek_correct[of buffer_AB 0 7 9] peek_correct[of buffer_AB 1 7 9]
    peek_correct[of buffer_AB 2 7 9]
  show ?thesis
    by simp
qed

text \<open>
  C7, reading a string. If the buffer holds fewer than \<open>str_length\<close> bytes,
  \<open>cBuffer_read_string\<close> returns \<open>CBUFFER_FAIL\<close> and leaves the buffer and the destination
  as they were; this holds for every value of the structure. Otherwise, in every buffer
  state (\<open>cBuffer_valid\<close>: the array of \<open>C_BUFFER_SIZE\<close> elements and both indices in range),
  it returns \<open>CBUFFER_SUCCESS\<close>; the buffer it leaves is the one \<open>str_length\<close> calls of
  \<open>cBuffer_read_char\<close> leave, each of them returning \<open>CBUFFER_SUCCESS\<close>; the bytes they
  yield, the oldest \<open>str_length\<close> stored bytes in order, are in cells \<open>0..str_length - 1\<close>
  of the destination, cell \<open>str_length\<close> is 0 and the cells behind it are untouched; the
  bytes left in the buffer are the rest, \<open>rear\<close> and the array are unchanged.
\<close>

theorem read_string_atomic:
  "(cBuffer_get_usedSpace b < n \<longrightarrow>
      cBuffer_read_string b n dest = (CBUFFER_FAIL, b, dest)) \<and>
   (cBuffer_valid b \<and> \<not> cBuffer_get_usedSpace b < n \<longrightarrow>
      fst (cBuffer_read_string b n dest) = CBUFFER_SUCCESS \<and>
      fst (read_char_seq b (unat n) readChar) =
        map (Pair CBUFFER_SUCCESS) (take (unat n) (cBuffer_contents b)) \<and>
      fst (snd (cBuffer_read_string b n dest)) = snd (read_char_seq b (unat n) readChar) \<and>
      (\<forall>i < unat n. snd (snd (cBuffer_read_string b n dest)) i = cBuffer_contents b ! i) \<and>
      snd (snd (cBuffer_read_string b n dest)) (unat n) = 0 \<and>
      (\<forall>i > unat n. snd (snd (cBuffer_read_string b n dest)) i = dest i) \<and>
      cBuffer_contents (fst (snd (cBuffer_read_string b n dest))) =
        drop (unat n) (cBuffer_contents b) \<and>
      rear (fst (snd (cBuffer_read_string b n dest))) = rear b \<and>
      data (fst (snd (cBuffer_read_string b n dest))) = data b)"
proof (intro conjI impI)
  assume "cBuffer_get_usedSpace b < n"
  then show "cBuffer_read_string b n dest = (CBUFFER_FAIL, b, dest)"
    by (rule read_string_fail)
next
  assume a: "cBuffer_valid b \<and> \<not> cBuffer_get_usedSpace b < n"
  then have v: "cBuffer_valid b" and u: "unat n \<le> unat (cBuffer_get_usedSpace b)"
    by (simp_all add: word_less_nat_alt)
  note r = read_string_success[of b n dest readChar]
  note s = read_char_seq_contents[OF v u, of readChar]
  show "fst (cBuffer_read_string b n dest) = CBUFFER_SUCCESS"
    and "fst (snd (cBuffer_read_string b n dest)) = snd (read_char_seq b (unat n) readChar)"
    and "snd (snd (cBuffer_read_string b n dest)) (unat n) = 0"
    and "\<forall>i < unat n. snd (snd (cBuffer_read_string b n dest)) i = cBuffer_contents b ! i"
    and "\<forall>i > unat n. snd (snd (cBuffer_read_string b n dest)) i = dest i"
    using a by (simp_all add: r)
  show "fst (read_char_seq b (unat n) readChar) =
      map (Pair CBUFFER_SUCCESS) (take (unat n) (cBuffer_contents b))"
    using s by simp
  show "cBuffer_contents (fst (snd (cBuffer_read_string b n dest))) = drop (unat n) (cBuffer_contents b)"
    and "rear (fst (snd (cBuffer_read_string b n dest))) = rear b"
    and "data (fst (snd (cBuffer_read_string b n dest))) = data b"
    using a s by (simp_all add: r)
qed

text \<open>
  C7 on the buffer that holds \<open>A\<close> and \<open>B\<close>: asking for 3 bytes fails and changes nothing,
  asking for 2 yields \<open>A\<close>, \<open>B\<close> and the terminator and empties the buffer.
\<close>

theorem read_string_atomic_witness:
  "cBuffer_get_usedSpace buffer_AB < 3 \<and>
   cBuffer_read_string buffer_AB 3 stale_dest = (CBUFFER_FAIL, buffer_AB, stale_dest) \<and>
   cBuffer_valid buffer_AB \<and> \<not> cBuffer_get_usedSpace buffer_AB < 2 \<and>
   fst (cBuffer_read_string buffer_AB 2 stale_dest) = CBUFFER_SUCCESS \<and>
   fst (read_char_seq buffer_AB 2 0) = [(CBUFFER_SUCCESS, 65), (CBUFFER_SUCCESS, 66)] \<and>
   map (snd (snd (cBuffer_read_string buffer_AB 2 stale_dest))) [0, 1, 2, 3] = [65, 66, 0, 170] \<and>
   cBuffer_contents (fst (snd (cBuffer_read_string buffer_AB 2 stale_dest))) = []"
proof -
  have u: "cBuffer_get_usedSpace buffer_AB < 3" "\<not> cBuffer_get_usedSpace buffer_AB < 2"
    by (simp_all add: buffer_AB_used)
  have f: "cBuffer_read_string buffer_AB 3 stale_dest = (CBUFFER_FAIL, buffer_AB, stale_dest)"
    using u(1) read_string_atomic[of buffer_AB 3 stale_dest 0] by blast
  have s: "fst (cBuffer_read_string buffer_AB 2 stale_dest) = CBUFFER_SUCCESS"
    "fst (read_char_seq buffer_AB 2 0) = map (Pair CBUFFER_SUCCESS) (take 2 (cBuffer_contents buffer_AB))"
    "\<forall>i < 2. snd (snd (cBuffer_read_string buffer_AB 2 stale_dest)) i = cBuffer_contents buffer_AB ! i"
    "snd (snd (cBuffer_read_string buffer_AB 2 stale_dest)) 2 = 0"
    "\<forall>i > 2. snd (snd (cBuffer_read_string buffer_AB 2 stale_dest)) i = stale_dest i"
    "cBuffer_contents (fst (snd (cBuffer_read_string buffer_AB 2 stale_dest))) =
       drop 2 (cBuffer_contents buffer_AB)"
    using u(2) buffer_AB_valid read_string_atomic[of buffer_AB 2 stale_dest 0] by auto
  from u f s buffer_AB_valid show ?thesis
    by (simp add: buffer_AB_contents stale_dest_def)
qed

text \<open>
  C8, the unreachable status. None of \<open>cBuffer_add_char\<close>, \<open>cBuffer_read_char\<close>,
  \<open>cBuffer_add_string\<close>, \<open>cBuffer_read_string\<close> and \<open>cBuffer_peek\<close> returns
  \<open>CBUFFER_INVALID_STRING\<close>, whatever the buffer and the arguments.
\<close>

theorem no_invalid_string_status:
  "fst (cBuffer_add_char b c) \<noteq> CBUFFER_INVALID_STRING \<and>
   fst (cBuffer_read_char b readChar) \<noteq> CBUFFER_INVALID_STRING \<and>
   fst (cBuffer_add_string b stringData) \<noteq> CBUFFER_INVALID_STRING \<and>
   fst (cBuffer_read_string b str_length DestinationBuffer) \<noteq> CBUFFER_INVALID_STRING \<and>
   fst (cBuffer_peek b peekIndex peekResult) \<noteq> CBUFFER_INVALID_STRING"
  by (simp add: cBuffer_add_char_def cBuffer_read_char_def cBuffer_add_string_def
      cBuffer_read_string_def cBuffer_peek_def Let_def split: prod.split)

text \<open>
  C9, reading a string of length 0. In every buffer, the empty one included,
  \<open>cBuffer_read_string\<close> with \<open>str_length = 0\<close> returns \<open>CBUFFER_SUCCESS\<close>, leaves the
  buffer as it was and changes the destination in cell 0 only, which becomes 0.
\<close>

theorem read_string_zero_length:
  "cBuffer_read_string b 0 DestinationBuffer = (CBUFFER_SUCCESS, b, DestinationBuffer(0 := 0))"
  by (simp add: cBuffer_read_string_def Let_def read_string_loop.simps)

text \<open>
  C10, the frame of a single push. In every buffer (with its array of \<open>C_BUFFER_SIZE\<close>
  elements) \<open>cBuffer_add_char\<close> returns \<open>CBUFFER_SUCCESS\<close> or \<open>CBUFFER_FULL\<close>. On success
  \<open>rear\<close> is \<open>(rear + 1) mod C_BUFFER_SIZE\<close> of the old \<open>rear\<close>, in 32 bits as the source
  computes it (with \<open>rear\<close> in range this is \<open>(rear + 1) mod 50\<close> as numbers), the slot at
  the new \<open>rear\<close> holds the byte, \<open>front\<close> and every other slot are as before. On
  \<open>CBUFFER_FULL\<close> the buffer is as before.
\<close>

theorem add_char_frame:
  assumes "length (data b) = unat C_BUFFER_SIZE"
  shows "case cBuffer_add_char b c of
           (st, b') \<Rightarrow>
             (st = CBUFFER_SUCCESS \<or> st = CBUFFER_FULL) \<and>
             (st = CBUFFER_SUCCESS \<longrightarrow>
                rear b' = (rear b + 1) mod C_BUFFER_SIZE \<and>
                (rear b < C_BUFFER_SIZE \<longrightarrow>
                   unat (rear b') = (unat (rear b) + 1) mod unat C_BUFFER_SIZE) \<and>
                front b' = front b \<and>
                length (data b') = length (data b) \<and>
                data b' ! unat (rear b') = c \<and>
                (\<forall>j. j \<noteq> unat (rear b') \<longrightarrow> data b' ! j = data b ! j)) \<and>
             (st = CBUFFER_FULL \<longrightarrow> b' = b)"
proof -
  have "unat ((rear b + 1) mod C_BUFFER_SIZE) < length (data b)"
    using next_lt[of "rear b"] assms by (simp add: word_less_nat_alt)
  then show ?thesis
    by (simp add: cBuffer_add_char_def Let_def next_unat unat_C_BUFFER_SIZE)
qed

text \<open>C10 on the buffer that holds \<open>A\<close> and \<open>B\<close>: pushing \<open>C\<close> writes slot 3 only.\<close>

theorem add_char_frame_witness:
  "length (data buffer_AB) = unat C_BUFFER_SIZE \<and>
   rear buffer_AB < C_BUFFER_SIZE \<and>
   cBuffer_add_char buffer_AB 67 =
     (CBUFFER_SUCCESS, \<lparr>data = 0 # 65 # 66 # 67 # replicate 46 0, front = 0, rear = 3\<rparr>) \<and>
   rear (snd (cBuffer_add_char buffer_AB 67)) = (rear buffer_AB + 1) mod C_BUFFER_SIZE \<and>
   front (snd (cBuffer_add_char buffer_AB 67)) = front buffer_AB \<and>
   data (snd (cBuffer_add_char buffer_AB 67)) ! 3 = 67"
proof -
  have l: "length (data buffer_AB) = unat C_BUFFER_SIZE"
    by (simp add: buffer_AB_eq C_BUFFER_SIZE_def)
  have r: "rear buffer_AB < C_BUFFER_SIZE"
    by (simp add: buffer_AB_eq C_BUFFER_SIZE_def)
  have e: "cBuffer_add_char buffer_AB 67 =
      (CBUFFER_SUCCESS, \<lparr>data = 0 # 65 # 66 # 67 # replicate 46 0, front = 0, rear = 3\<rparr>)"
    by (simp add: buffer_AB_eq cBuffer_add_char_def C_BUFFER_SIZE_def Let_def) code_simp
  from l r e add_char_frame[OF l, of 67] show ?thesis
    by simp
qed

end
